theory Spec2Isabelle
  imports Main "HOL-Library.Word"
begin

section \<open>py-caskdb: the record format and the disk store\<close>

text \<open>
  A shallow embedding of \<^verbatim>\<open>format.py\<close> and \<^verbatim>\<open>disk_store.py\<close>.
  Python values are modelled as follows.
  \<^item> \<^verbatim>\<open>int\<close> is \<open>int\<close> (unbounded).
  \<^item> \<^verbatim>\<open>bytes\<close> is a list of 8-bit words.
  \<^item> \<^verbatim>\<open>str\<close> is the list of its Unicode code points, so that \<open>length\<close> is what
    Python's \<^verbatim>\<open>len\<close> counts on a \<^verbatim>\<open>str\<close>: code points, not bytes.
  \<^item> A raised exception is the left summand of \<open>error + 'a\<close>.
\<close>

type_synonym byte = "8 word"

type_synonym bytes = "byte list"

type_synonym str = "nat list"

text \<open>A Python string literal of ASCII characters.\<close>

definition py_str :: "string \<Rightarrow> str" where
  "py_str cs = map of_char cs"

datatype error = StructError | UnicodeEncodeError | UnicodeDecodeError | OSError

text \<open>
  \<^verbatim>\<open>struct.pack("III", ...)\<close> has no byte-order prefix: it uses the byte order of the host.
  The host's order is a parameter of the model. On every mainstream host the native
  \<^verbatim>\<open>unsigned int\<close> has four bytes and three of them are laid out without padding.
\<close>

datatype byteorder = LittleEndian | BigEndian

subsection \<open>The library functions the source calls\<close>

text \<open>Four bytes of a number below \<open>2 ^ 32\<close>, least significant first, and back.\<close>

definition le_bytes4 :: "nat \<Rightarrow> bytes" where
  "le_bytes4 n =
     [of_nat (n mod 256), of_nat (n div 256 mod 256),
      of_nat (n div 65536 mod 256), of_nat (n div 16777216 mod 256)]"

fun le_value :: "bytes \<Rightarrow> nat" where
  "le_value [] = 0"
| "le_value (b # bs) = unat b + 256 * le_value bs"

text \<open>
  One \<^verbatim>\<open>I\<close> field. \<^verbatim>\<open>struct.pack\<close> raises \<^verbatim>\<open>struct.error\<close> for an argument
  outside \<open>0 .. 2 ^ 32 - 1\<close>.
\<close>

definition pack_I :: "byteorder \<Rightarrow> int \<Rightarrow> error + bytes" where
  "pack_I bo x =
     (if 0 \<le> x \<and> x < 2 ^ 32
      then Inr (case bo of LittleEndian \<Rightarrow> le_bytes4 (nat x) | BigEndian \<Rightarrow> rev (le_bytes4 (nat x)))
      else Inl StructError)"

definition unpack_I :: "byteorder \<Rightarrow> bytes \<Rightarrow> int" where
  "unpack_I bo bs = int (le_value (case bo of LittleEndian \<Rightarrow> bs | BigEndian \<Rightarrow> rev bs))"

definition struct_pack_III :: "byteorder \<Rightarrow> int \<Rightarrow> int \<Rightarrow> int \<Rightarrow> error + bytes" where
  "struct_pack_III bo a b c =
     (case pack_I bo a of Inl e \<Rightarrow> Inl e | Inr x \<Rightarrow>
     (case pack_I bo b of Inl e \<Rightarrow> Inl e | Inr y \<Rightarrow>
     (case pack_I bo c of Inl e \<Rightarrow> Inl e | Inr z \<Rightarrow> Inr (x @ y @ z))))"

text \<open>\<^verbatim>\<open>struct.unpack\<close> raises \<^verbatim>\<open>struct.error\<close> unless the buffer has exactly 12 bytes.\<close>

definition struct_unpack_III :: "byteorder \<Rightarrow> bytes \<Rightarrow> error + int \<times> int \<times> int" where
  "struct_unpack_III bo data =
     (if length data \<noteq> 12 then Inl StructError
      else Inr (unpack_I bo (take 4 data), unpack_I bo (take 4 (drop 4 data)),
                unpack_I bo (drop 8 data)))"

text \<open>
  \<^verbatim>\<open>str.encode()\<close>: UTF-8, strict. A surrogate code point raises
  \<^verbatim>\<open>UnicodeEncodeError\<close>. A Python \<^verbatim>\<open>str\<close> holds no code point from \<open>0x110000\<close> on;
  the model gives the same error there.
\<close>

definition utf8_encode_char :: "nat \<Rightarrow> error + bytes" where
  "utf8_encode_char c =
     (if c < 0x80 then Inr [of_nat c]
      else if c < 0x800 then Inr [of_nat (0xC0 + c div 64), of_nat (0x80 + c mod 64)]
      else if 0xD800 \<le> c \<and> c < 0xE000 then Inl UnicodeEncodeError
      else if c < 0x10000 then
        Inr [of_nat (0xE0 + c div 4096), of_nat (0x80 + c div 64 mod 64), of_nat (0x80 + c mod 64)]
      else if c < 0x110000 then
        Inr [of_nat (0xF0 + c div 262144), of_nat (0x80 + c div 4096 mod 64),
             of_nat (0x80 + c div 64 mod 64), of_nat (0x80 + c mod 64)]
      else Inl UnicodeEncodeError)"

fun utf8_encode :: "str \<Rightarrow> error + bytes" where
  "utf8_encode [] = Inr []"
| "utf8_encode (c # cs) =
     (case utf8_encode_char c of Inl e \<Rightarrow> Inl e | Inr bs \<Rightarrow>
     (case utf8_encode cs of Inl e \<Rightarrow> Inl e | Inr rest \<Rightarrow> Inr (bs @ rest)))"

text \<open>
  \<^verbatim>\<open>bytes.decode()\<close>: UTF-8, strict. It raises \<^verbatim>\<open>UnicodeDecodeError\<close> on a stray or
  missing continuation byte, an overlong form, a surrogate and a value from \<open>0x110000\<close> on.
\<close>

definition is_cont :: "byte \<Rightarrow> bool" where
  "is_cont b = (0x80 \<le> unat b \<and> unat b < 0xC0)"

definition cons_char :: "nat \<Rightarrow> error + str \<Rightarrow> error + str" where
  "cons_char c r = (case r of Inl e \<Rightarrow> Inl e | Inr cs \<Rightarrow> Inr (c # cs))"

fun utf8_decode :: "bytes \<Rightarrow> error + str" where
  "utf8_decode [] = Inr []"
| "utf8_decode (b # bs) =
     (let n = unat b in
      if n < 0x80 then cons_char n (utf8_decode bs)
      else if n < 0xC0 then Inl UnicodeDecodeError
      else if n < 0xE0 then
        (case bs of
           b1 # r \<Rightarrow>
             (let c = (n - 0xC0) * 64 + (unat b1 - 0x80) in
              if is_cont b1 \<and> 0x80 \<le> c then cons_char c (utf8_decode r)
              else Inl UnicodeDecodeError)
         | _ \<Rightarrow> Inl UnicodeDecodeError)
      else if n < 0xF0 then
        (case bs of
           b1 # b2 # r \<Rightarrow>
             (let c = (n - 0xE0) * 4096 + (unat b1 - 0x80) * 64 + (unat b2 - 0x80) in
              if is_cont b1 \<and> is_cont b2 \<and> 0x800 \<le> c \<and> \<not> (0xD800 \<le> c \<and> c < 0xE000)
              then cons_char c (utf8_decode r)
              else Inl UnicodeDecodeError)
         | _ \<Rightarrow> Inl UnicodeDecodeError)
      else if n < 0xF8 then
        (case bs of
           b1 # b2 # b3 # r \<Rightarrow>
             (let c = (n - 0xF0) * 262144 + (unat b1 - 0x80) * 4096
                      + (unat b2 - 0x80) * 64 + (unat b3 - 0x80) in
              if is_cont b1 \<and> is_cont b2 \<and> is_cont b3 \<and> 0x10000 \<le> c \<and> c < 0x110000
              then cons_char c (utf8_decode r)
              else Inl UnicodeDecodeError)
         | _ \<Rightarrow> Inl UnicodeDecodeError)
      else Inl UnicodeDecodeError)"

subsection \<open>format.py\<close>

definition HEADER_SIZE :: nat where
  "HEADER_SIZE = 12"

definition encode_header :: "byteorder \<Rightarrow> int \<Rightarrow> int \<Rightarrow> int \<Rightarrow> error + bytes" where
  "encode_header bo timestamp key_size value_size =
     struct_pack_III bo timestamp key_size value_size"

definition decode_header :: "byteorder \<Rightarrow> bytes \<Rightarrow> error + int \<times> int \<times> int" where
  "decode_header bo data = struct_unpack_III bo data"

text \<open>
  \<^verbatim>\<open>encode_kv\<close> puts \<^verbatim>\<open>len(key)\<close> and \<^verbatim>\<open>len(value)\<close> of the two \<^verbatim>\<open>str\<close> arguments
  in the header, and returns the byte length of the whole record with its bytes.
\<close>

definition encode_kv :: "byteorder \<Rightarrow> int \<Rightarrow> str \<Rightarrow> str \<Rightarrow> error + int \<times> bytes" where
  "encode_kv bo timestamp key val =
     (case encode_header bo timestamp (int (length key)) (int (length val)) of
        Inl e \<Rightarrow> Inl e
      | Inr header \<Rightarrow>
     (case utf8_encode key of Inl e \<Rightarrow> Inl e | Inr kb \<Rightarrow>
     (case utf8_encode val of Inl e \<Rightarrow> Inl e | Inr vb \<Rightarrow>
        (let data = kb @ vb in Inr (int HEADER_SIZE + int (length data), header @ data)))))"

text \<open>
  The slices \<^verbatim>\<open>data[:12]\<close>, \<^verbatim>\<open>data[12:12 + key_size]\<close> and \<^verbatim>\<open>data[12 + key_size:]\<close>
  stop at the end of a short buffer, as \<open>take\<close> and \<open>drop\<close> do; \<open>key_size\<close> comes out
  of \<open>decode_header\<close> and is never negative.
\<close>

definition decode_kv :: "byteorder \<Rightarrow> bytes \<Rightarrow> error + int \<times> str \<times> str" where
  "decode_kv bo data =
     (case decode_header bo (take HEADER_SIZE data) of
        Inl e \<Rightarrow> Inl e
      | Inr (timestamp, key_size, value_size) \<Rightarrow>
     (let key = take (nat key_size) (drop HEADER_SIZE data);
          val = drop (HEADER_SIZE + nat key_size) data
      in case utf8_decode key of Inl e \<Rightarrow> Inl e | Inr k \<Rightarrow>
         (case utf8_decode val of Inl e \<Rightarrow> Inl e | Inr v \<Rightarrow> Inr (timestamp, k, v))))"

subsection \<open>The file object\<close>

text \<open>
  The file behind a store: its bytes and the position of the handle. The handle is opened
  in mode \<^verbatim>\<open>ab+\<close>: a read starts at the position and stops at the end of the file, a
  write always goes to the end of the file and leaves the position there. A write either
  appends all its bytes or raises \<^verbatim>\<open>OSError\<close> (a full disk, an I/O fault) and
  appends nothing; which of the two happens is an input of the model. What \<^verbatim>\<open>tell()\<close>
  returns after a write is the new end of the file when the write started with the handle
  at the end, which is how \<open>init\<close>, \<open>set_ds\<close> and \<open>get\<close> leave it (lemmas
  \<open>init_at_end\<close>, \<open>set_ds_at_end\<close>, \<open>get_at_end\<close>); the theorems that depend on
  \<^verbatim>\<open>tell()\<close> assume that position.
\<close>

record file_obj =
  content :: bytes
  pos :: nat

text \<open>\<^verbatim>\<open>read(n)\<close>; the source never passes a negative \<open>n\<close>.\<close>

definition fread :: "int \<Rightarrow> file_obj \<Rightarrow> bytes \<times> file_obj" where
  "fread n f =
     (let bs = take (nat n) (drop (pos f) (content f))
      in (bs, f\<lparr>pos := pos f + length bs\<rparr>))"

text \<open>\<^verbatim>\<open>seek(n)\<close>, \<^verbatim>\<open>seek(n, 1)\<close> and \<^verbatim>\<open>seek(0, 2)\<close>; a negative target raises.\<close>

definition fseek :: "int \<Rightarrow> file_obj \<Rightarrow> error + file_obj" where
  "fseek n f = (if n < 0 then Inl OSError else Inr (f\<lparr>pos := nat n\<rparr>))"

definition fseek_cur :: "int \<Rightarrow> file_obj \<Rightarrow> error + file_obj" where
  "fseek_cur n f = fseek (int (pos f) + n) f"

definition fseek_end :: "file_obj \<Rightarrow> file_obj" where
  "fseek_end f = f\<lparr>pos := length (content f)\<rparr>"

definition ftell :: "file_obj \<Rightarrow> int" where
  "ftell f = int (pos f)"

definition fwrite :: "bool \<Rightarrow> bytes \<Rightarrow> file_obj \<Rightarrow> error + file_obj" where
  "fwrite disk_ok data f =
     (if disk_ok then Inr \<lparr>content = content f @ data, pos = length (content f @ data)\<rparr>
      else Inl OSError)"

subsection \<open>disk_store.py\<close>

text \<open>
  The fields of a \<^verbatim>\<open>DiskStorage\<close> object. A method returns its result, or the
  exception it raises, together with the object as the call leaves it.
\<close>

record DiskStorage =
  file_h :: file_obj
  key_dir :: "str \<rightharpoonup> int \<times> int"

text \<open>
  One pass of the \<^verbatim>\<open>while\<close> loop of \<^verbatim>\<open>__init__\<close>, on the object and the local
  \<^verbatim>\<open>bytes_read\<close>.
\<close>

definition scan_step :: "byteorder \<Rightarrow> DiskStorage \<Rightarrow> int \<Rightarrow> error + DiskStorage \<times> int" where
  "scan_step bo s bytes_read =
     (let (header, f1) = fread (int HEADER_SIZE) (file_h s) in
      case decode_header bo header of
        Inl e \<Rightarrow> Inl e
      | Inr (timestamp, key_size, value_size) \<Rightarrow>
     (case fseek_cur (- int HEADER_SIZE) f1 of
        Inl e \<Rightarrow> Inl e
      | Inr f2 \<Rightarrow>
     (let (data, f3) = fread (int HEADER_SIZE + key_size + value_size) f2 in
      case decode_kv bo data of
        Inl e \<Rightarrow> Inl e
      | Inr (ts, key, val) \<Rightarrow>
          Inr (\<lparr>file_h = f3, key_dir = (key_dir s)(key \<mapsto> (ftell f3 - value_size, value_size))\<rparr>,
               bytes_read + int HEADER_SIZE + key_size + value_size))))"

lemma decode_header_Inr:
  assumes "decode_header bo h = Inr (t, k, v)"
  shows "length h = 12 \<and> 0 \<le> t \<and> 0 \<le> k \<and> 0 \<le> v"
  using assms
  by (auto simp: decode_header_def struct_unpack_III_def unpack_I_def split: if_splits)

lemma scan_step_pos:
  assumes "scan_step bo s bytes_read = Inr (s', bytes_read')"
  shows "content (file_h s') = content (file_h s) \<and> pos (file_h s) < pos (file_h s')
         \<and> pos (file_h s') \<le> length (content (file_h s))"
proof -
  let ?c = "content (file_h s)" and ?p = "pos (file_h s)"
  let ?h = "take 12 (drop ?p ?c)"
  obtain t k v where hd: "decode_header bo ?h = Inr (t, k, v)"
    using assms
    by (auto simp: scan_step_def fread_def HEADER_SIZE_def Let_def split: sum.splits prod.splits)
  from decode_header_Inr [OF hd] have len: "length ?h = 12" and k: "0 \<le> k" and v: "0 \<le> v"
    by simp_all
  from len have room: "?p + 12 \<le> length ?c" by simp
  from assms hd room
  have s': "file_h s' = \<lparr>content = ?c, pos = ?p + length (take (nat (12 + k + v)) (drop ?p ?c))\<rparr>"
    by (auto simp: scan_step_def fread_def fseek_cur_def fseek_def HEADER_SIZE_def Let_def
             split: sum.splits prod.splits if_splits)
  from k v have "12 \<le> nat (12 + k + v)" by linarith
  with room have "12 \<le> length (take (nat (12 + k + v)) (drop ?p ?c))" by simp
  with s' room show ?thesis by auto
qed

function scan_loop :: "byteorder \<Rightarrow> int \<Rightarrow> DiskStorage \<Rightarrow> int \<Rightarrow> error + DiskStorage" where
  "scan_loop bo file_size s bytes_read =
     (if bytes_read \<noteq> file_size then
        (case scan_step bo s bytes_read of
           Inl e \<Rightarrow> Inl e
         | Inr (s', bytes_read') \<Rightarrow> scan_loop bo file_size s' bytes_read')
      else Inr s)"
  by pat_completeness auto
termination
proof (relation "measure (\<lambda>(bo, file_size, s, bytes_read). length (content (file_h s)) - pos (file_h s))")
  show "wf (measure (\<lambda>(bo, file_size, s, bytes_read). length (content (file_h s)) - pos (file_h s)))"
    by simp
next
  fix bo :: byteorder and file_size bytes_read :: int and s :: DiskStorage and x2 x y
  assume "bytes_read \<noteq> file_size" and "scan_step bo s bytes_read = Inr x2" and "(x, y) = x2"
  then have "scan_step bo s bytes_read = Inr (x, y)" by simp
  from scan_step_pos [OF this]
  show "((bo, file_size, x, y), bo, file_size, s, bytes_read)
        \<in> measure (\<lambda>(bo, file_size, s, bytes_read). length (content (file_h s)) - pos (file_h s))"
    by auto
qed

declare scan_loop.simps [simp del]

text \<open>
  \<^verbatim>\<open>__init__\<close>, on the bytes the file of that name holds (none when it does not exist:
  mode \<^verbatim>\<open>ab+\<close> creates it). An exception leaves no object.
\<close>

definition init :: "byteorder \<Rightarrow> bytes \<Rightarrow> error + DiskStorage" where
  "init bo disk =
     (let s = \<lparr>file_h = \<lparr>content = disk, pos = length disk\<rparr>, key_dir = Map.empty\<rparr>;
          file_size = int (length disk)
      in case (if file_size \<noteq> 0 then
                 (case fseek 0 (file_h s) of
                    Inl e \<Rightarrow> Inl e
                  | Inr f \<Rightarrow> scan_loop bo file_size (s\<lparr>file_h := f\<rparr>) 0)
               else Inr s) of
           Inl e \<Rightarrow> Inl e
         | Inr s' \<Rightarrow> Inr (s'\<lparr>file_h := fseek_end (file_h s')\<rparr>))"

text \<open>
  \<^verbatim>\<open>set\<close>; \<open>now\<close> is what \<^verbatim>\<open>int(time.time())\<close> returns and \<open>disk_ok\<close> tells whether
  the write succeeds.
\<close>

definition set_ds ::
  "byteorder \<Rightarrow> int \<Rightarrow> bool \<Rightarrow> str \<Rightarrow> str \<Rightarrow> DiskStorage \<Rightarrow> (error + unit) \<times> DiskStorage" where
  "set_ds bo now disk_ok key val s =
     (case encode_kv bo now key val of
        Inl e \<Rightarrow> (Inl e, s)
      | Inr (sz, data) \<Rightarrow>
     (let s1 = s\<lparr>key_dir := (key_dir s)(key \<mapsto>
                  (ftell (file_h s) + sz - int (length val), int (length val)))\<rparr>
      in case fwrite disk_ok data (file_h s1) of
           Inl e \<Rightarrow> (Inl e, s1)
         | Inr f \<Rightarrow> (Inr (), s1\<lparr>file_h := f\<rparr>)))"

definition get :: "str \<Rightarrow> DiskStorage \<Rightarrow> (error + str) \<times> DiskStorage" where
  "get key s =
     (case key_dir s key of
        Some (value_pos, value_sz) \<Rightarrow>
          (case fseek value_pos (file_h s) of
             Inl e \<Rightarrow> (Inl e, s)
           | Inr f1 \<Rightarrow>
          (let (val, f2) = fread value_sz f1;
               s' = s\<lparr>file_h := fseek_end f2\<rparr>
           in case utf8_decode val of Inl e \<Rightarrow> (Inl e, s') | Inr v \<Rightarrow> (Inr v, s')))
      | None \<Rightarrow> (Inr [], s))"

text \<open>\<^verbatim>\<open>close\<close> releases the handle; what remains is the bytes of the file.\<close>

definition close :: "DiskStorage \<Rightarrow> bytes" where
  "close s = content (file_h s)"

subsection \<open>Running the model\<close>

text \<open>Unfolding rules for running the model on concrete inputs.\<close>

lemmas codec_eval = decode_kv_def encode_kv_def HEADER_SIZE_def decode_header_def encode_header_def
  struct_unpack_III_def struct_pack_III_def unpack_I_def pack_I_def le_bytes4_def cons_char_def
  utf8_encode_char_def is_cont_def Let_def

lemmas store_eval = init_def scan_loop.simps scan_step_def fread_def fseek_def fseek_cur_def
  fseek_end_def ftell_def fwrite_def set_ds_def get_def close_def

section \<open>The byte codecs\<close>

subsection \<open>Unsigned 32-bit fields\<close>

lemma unat_byte: "n < 256 \<Longrightarrow> unat (of_nat n :: byte) = n"
  by (simp add: unat_of_nat)

lemma radix256:
  fixes n :: nat
  assumes "n = r0 + 256 * a" "a = r1 + 256 * b" "b = r2 + 256 * c"
  shows "r0 + 256 * (r1 + 256 * (r2 + 256 * c)) = n"
  using assms by simp

lemma le_value_le_bytes4:
  assumes "n < 2 ^ 32"
  shows "le_value (le_bytes4 n) = n"
proof -
  let ?a = "n div 256" and ?b = "n div 256 div 256" and ?c = "n div 256 div 256 div 256"
  have d2: "n div 65536 = ?b" and d3: "n div 16777216 = ?c"
    by (simp_all add: div_mult2_eq [symmetric])
  have "?c < 256" using assms by (simp add: d3 [symmetric])
  then have c: "?c mod 256 = ?c" and uc: "unat (of_nat ?c :: byte) = ?c"
    by (simp_all add: unat_byte)
  have "n mod 256 + 256 * (?a mod 256 + 256 * (?b mod 256 + 256 * ?c)) = n"
    by (rule radix256) (rule mod_mult_div_eq [symmetric])+
  then show ?thesis
    by (simp add: le_bytes4_def unat_byte d2 d3 c uc)
qed

lemma length_le_bytes4: "length (le_bytes4 n) = 4"
  by (simp add: le_bytes4_def)

lemma pack_I_Inr:
  assumes "0 \<le> x" "x < 2 ^ 32"
  shows "\<exists>bs. pack_I bo x = Inr bs \<and> length bs = 4 \<and> unpack_I bo bs = x"
proof -
  from assms have "nat x < nat (2 ^ 32)" by (simp only: nat_less_eq_zless)
  then have "nat x < 2 ^ 32" by simp
  from le_value_le_bytes4 [OF this] assms show ?thesis
    by (cases bo) (simp_all add: pack_I_def unpack_I_def length_le_bytes4)
qed

lemma pack_I_range: "pack_I bo x = Inr bs \<Longrightarrow> 0 \<le> x \<and> x < 2 ^ 32"
  by (simp add: pack_I_def split: if_splits)

subsection \<open>UTF-8\<close>

lemma radix64:
  fixes c :: nat
  shows "c div 64 * 64 + c mod 64 = c"
    and "c div 4096 * 4096 + c div 64 mod 64 * 64 + c mod 64 = c"
    and "c div 262144 * 262144 + c div 4096 mod 64 * 4096 + c div 64 mod 64 * 64 + c mod 64 = c"
proof -
  let ?a = "c div 64" and ?b = "c div 64 div 64" and ?d = "c div 64 div 64 div 64"
  have d2: "c div 4096 = ?b" and d3: "c div 262144 = ?d"
    by (simp_all add: div_mult2_eq [symmetric])
  have c: "c = c mod 64 + 64 * ?a" and a: "?a = ?a mod 64 + 64 * ?b"
    and b: "?b = ?b mod 64 + 64 * ?d"
    by (rule mod_mult_div_eq [symmetric])+
  show "c div 64 * 64 + c mod 64 = c" by simp
  show "c div 4096 * 4096 + c div 64 mod 64 * 64 + c mod 64 = c"
    unfolding d2 using c a by linarith
  show "c div 262144 * 262144 + c div 4096 mod 64 * 4096 + c div 64 mod 64 * 64 + c mod 64 = c"
    unfolding d2 d3 using c a b by linarith
qed

lemma utf8_decode_1:
  assumes "unat b0 = c" "c < 128"
  shows "utf8_decode (b0 # rest) = cons_char c (utf8_decode rest)"
  using assms by simp

lemma utf8_decode_2:
  assumes "unat b0 = 192 + h" "unat b1 = 128 + l" "h < 32" "l < 64" "128 \<le> h * 64 + l"
  shows "utf8_decode (b0 # b1 # rest) = cons_char (h * 64 + l) (utf8_decode rest)"
  using assms by (simp add: is_cont_def)

lemma utf8_decode_3:
  assumes "unat b0 = 224 + h" "unat b1 = 128 + m" "unat b2 = 128 + l"
    and "h < 16" "m < 64" "l < 64"
    and "2048 \<le> h * 4096 + m * 64 + l"
    and "\<not> (55296 \<le> h * 4096 + m * 64 + l \<and> h * 4096 + m * 64 + l < 57344)"
  shows "utf8_decode (b0 # b1 # b2 # rest) = cons_char (h * 4096 + m * 64 + l) (utf8_decode rest)"
  using assms by (simp add: is_cont_def)

lemma utf8_decode_4:
  assumes "unat b0 = 240 + h" "unat b1 = 128 + m" "unat b2 = 128 + n" "unat b3 = 128 + l"
    and "h < 8" "m < 64" "n < 64" "l < 64"
    and "65536 \<le> h * 262144 + m * 4096 + n * 64 + l"
    and "h * 262144 + m * 4096 + n * 64 + l < 1114112"
  shows "utf8_decode (b0 # b1 # b2 # b3 # rest)
         = cons_char (h * 262144 + m * 4096 + n * 64 + l) (utf8_decode rest)"
  using assms by (simp add: is_cont_def)

lemma utf8_encode_char_decode:
  assumes "utf8_encode_char c = Inr bs"
  shows "utf8_decode (bs @ rest) = cons_char c (utf8_decode rest)"
proof -
  consider (one) "c < 128" | (two) "128 \<le> c" "c < 2048"
    | (three) "2048 \<le> c" "c < 65536" | (four) "65536 \<le> c"
    by linarith
  then show ?thesis
  proof cases
    case one
    with assms have bs: "bs = [of_nat c]" by (simp add: utf8_encode_char_def)
    from one have "unat (of_nat c :: byte) = c" by (intro unat_byte) simp
    from utf8_decode_1 [OF this one] show ?thesis by (simp add: bs)
  next
    case two
    with assms have bs: "bs = [of_nat (192 + c div 64), of_nat (128 + c mod 64)]"
      by (simp add: utf8_encode_char_def)
    from two have h: "c div 64 < 32" by simp
    have l: "c mod 64 < 64" by simp
    from h have u0: "unat (of_nat (192 + c div 64) :: byte) = 192 + c div 64"
      by (intro unat_byte) simp
    have u1: "unat (of_nat (128 + c mod 64) :: byte) = 128 + c mod 64"
      by (intro unat_byte) simp
    from two have ge: "128 \<le> c div 64 * 64 + c mod 64" by (simp only: radix64)
    from utf8_decode_2 [OF u0 u1 h l ge, of rest] show ?thesis
      by (simp only: bs radix64 append.simps)
  next
    case three
    from assms three have ns: "\<not> (55296 \<le> c \<and> c < 57344)"
      by (auto simp: utf8_encode_char_def split: if_splits)
    with assms three have bs: "bs = [of_nat (224 + c div 4096),
        of_nat (128 + c div 64 mod 64), of_nat (128 + c mod 64)]"
      by (auto simp: utf8_encode_char_def)
    from three have h: "c div 4096 < 16" by simp
    have m: "c div 64 mod 64 < 64" and l: "c mod 64 < 64" by simp_all
    from h have u0: "unat (of_nat (224 + c div 4096) :: byte) = 224 + c div 4096"
      by (intro unat_byte) simp
    have u1: "unat (of_nat (128 + c div 64 mod 64) :: byte) = 128 + c div 64 mod 64"
      by (intro unat_byte) simp
    have u2: "unat (of_nat (128 + c mod 64) :: byte) = 128 + c mod 64"
      by (intro unat_byte) simp
    from three have ge: "2048 \<le> c div 4096 * 4096 + c div 64 mod 64 * 64 + c mod 64"
      by (simp only: radix64)
    from ns have ns': "\<not> (55296 \<le> c div 4096 * 4096 + c div 64 mod 64 * 64 + c mod 64
        \<and> c div 4096 * 4096 + c div 64 mod 64 * 64 + c mod 64 < 57344)"
      unfolding radix64 .
    from utf8_decode_3 [OF u0 u1 u2 h m l ge ns', of rest] show ?thesis
      by (simp only: bs radix64 append.simps)
  next
    case four
    from assms four have lt: "c < 1114112"
      by (auto simp: utf8_encode_char_def split: if_splits)
    with assms four have bs: "bs = [of_nat (240 + c div 262144),
        of_nat (128 + c div 4096 mod 64), of_nat (128 + c div 64 mod 64), of_nat (128 + c mod 64)]"
      by (auto simp: utf8_encode_char_def)
    from lt have h: "c div 262144 < 8" by simp
    have m: "c div 4096 mod 64 < 64" and n: "c div 64 mod 64 < 64" and l: "c mod 64 < 64"
      by simp_all
    from h have u0: "unat (of_nat (240 + c div 262144) :: byte) = 240 + c div 262144"
      by (intro unat_byte) simp
    have u1: "unat (of_nat (128 + c div 4096 mod 64) :: byte) = 128 + c div 4096 mod 64"
      by (intro unat_byte) simp
    have u2: "unat (of_nat (128 + c div 64 mod 64) :: byte) = 128 + c div 64 mod 64"
      by (intro unat_byte) simp
    have u3: "unat (of_nat (128 + c mod 64) :: byte) = 128 + c mod 64"
      by (intro unat_byte) simp
    from four have ge: "65536 \<le> c div 262144 * 262144 + c div 4096 mod 64 * 4096
        + c div 64 mod 64 * 64 + c mod 64"
      by (simp only: radix64)
    from lt have lt': "c div 262144 * 262144 + c div 4096 mod 64 * 4096
        + c div 64 mod 64 * 64 + c mod 64 < 1114112"
      by (simp only: radix64)
    from utf8_decode_4 [OF u0 u1 u2 u3 h m n l ge lt', of rest] show ?thesis
      by (simp only: bs radix64 append.simps)
  qed
qed

lemma utf8_roundtrip: "utf8_encode s = Inr bs \<Longrightarrow> utf8_decode bs = Inr s"
proof (induction s arbitrary: bs)
  case Nil
  then show ?case by simp
next
  case (Cons c cs)
  then obtain b r where b: "utf8_encode_char c = Inr b" and r: "utf8_encode cs = Inr r"
    and bs: "bs = b @ r"
    by (auto split: sum.splits)
  from utf8_encode_char_decode [OF b, of r] Cons.IH [OF r] bs show ?case
    by (simp add: cons_char_def)
qed

lemma utf8_encode_char_length: "utf8_encode_char c = Inr bs \<Longrightarrow> 1 \<le> length bs"
  by (auto simp: utf8_encode_char_def split: if_splits)

lemma utf8_encode_length: "utf8_encode s = Inr bs \<Longrightarrow> length s \<le> length bs"
proof (induction s arbitrary: bs)
  case Nil
  then show ?case by simp
next
  case (Cons c cs)
  then obtain b r where b: "utf8_encode_char c = Inr b" and r: "utf8_encode cs = Inr r"
    and bs: "bs = b @ r"
    by (auto split: sum.splits)
  from Cons.IH [OF r] utf8_encode_char_length [OF b] bs show ?case by simp
qed

lemma utf8_encode_ascii:
  assumes "list_all (\<lambda>c. c < 128) s"
  shows "\<exists>bs. utf8_encode s = Inr bs \<and> length bs = length s"
  using assms by (induction s) (auto simp: utf8_encode_char_def)

lemma cons_char_Inl_iff: "cons_char c r = Inl e \<longleftrightarrow> r = Inl e"
  by (cases r) (simp_all add: cons_char_def)

lemma utf8_decode_error: "utf8_decode bs = Inl e \<Longrightarrow> e = UnicodeDecodeError"
proof (induction bs rule: utf8_decode.induct)
  case 1
  then show ?case by simp
next
  case (2 b bs)
  show ?case
  proof (cases "unat b < 0x80")
    case True
    with "2.prems" "2.IH"(1) show ?thesis by (simp add: cons_char_Inl_iff)
  next
    case a: False
    show ?thesis
    proof (cases "unat b < 0xC0")
      case True
      with a "2.prems" show ?thesis by simp
    next
      case b: False
      show ?thesis
      proof (cases "unat b < 0xE0")
        case True
        with a b "2.prems" "2.IH"(2) show ?thesis
          by (cases bs) (simp_all add: Let_def cons_char_Inl_iff split: if_splits)
      next
        case c: False
        show ?thesis
        proof (cases "unat b < 0xF0")
          case True
          with a b c "2.prems" "2.IH"(3) show ?thesis
            by (simp add: Let_def cons_char_Inl_iff split: if_splits list.splits)
        next
          case d: False
          show ?thesis
          proof (cases "unat b < 0xF8")
            case True
            with a b c d "2.prems" "2.IH"(4) show ?thesis
              by (simp add: Let_def cons_char_Inl_iff split: if_splits list.splits)
          next
            case False
            with a b c d "2.prems" show ?thesis by simp
          qed
        qed
      qed
    qed
  qed
qed

lemma cons_char_Inr: "cons_char c r = Inr s \<longleftrightarrow> (\<exists>cs. r = Inr cs \<and> s = c # cs)"
  by (cases r) (auto simp: cons_char_def)

text \<open>
  A decoded string has at most as many code points as there were bytes, and as many only
  when every byte stands for an ASCII character.
\<close>

lemma utf8_decode_length:
  "utf8_decode bs = Inr s \<Longrightarrow>
     length s \<le> length bs \<and> (length s = length bs \<longrightarrow> list_all (\<lambda>c. c < 128) s)"
proof (induction bs arbitrary: s rule: utf8_decode.induct)
  case 1
  then show ?case by simp
next
  case (2 b bs)
  show ?case
  proof (cases "unat b < 0x80")
    case True
    with "2.prems" obtain cs where cs: "utf8_decode bs = Inr cs" and s: "s = unat b # cs"
      by (auto simp: cons_char_Inr)
    from "2.IH"(1) [OF refl True cs] s True show ?thesis by simp
  next
    case a: False
    show ?thesis
    proof (cases "unat b < 0xC0")
      case True
      with a "2.prems" show ?thesis by simp
    next
      case b: False
      show ?thesis
      proof (cases "unat b < 0xE0")
        case True
        with a b "2.prems" obtain b1 r cs where bs: "bs = b1 # r"
          and cs: "utf8_decode r = Inr cs" and s: "length s = Suc (length cs)"
          by (auto simp: Let_def cons_char_Inr split: if_splits list.splits)
        from "2.IH"(2) [OF refl a b True bs refl _ cs] a b True "2.prems" bs
        have "length cs \<le> length r"
          by (auto simp: Let_def split: if_splits)
        with bs s show ?thesis by simp
      next
        case c: False
        show ?thesis
        proof (cases "unat b < 0xF0")
          case True
          with a b c "2.prems" obtain b1 b2 r cs where bs: "bs = b1 # b2 # r"
            and cs: "utf8_decode r = Inr cs" and s: "length s = Suc (length cs)"
            by (auto simp: Let_def cons_char_Inr split: if_splits list.splits)
          from "2.IH"(3) [OF refl a b c True bs refl refl _ cs] a b c True "2.prems" bs
          have "length cs \<le> length r"
            by (auto simp: Let_def split: if_splits)
          with bs s show ?thesis by simp
        next
          case d: False
          show ?thesis
          proof (cases "unat b < 0xF8")
            case True
            with a b c d "2.prems" obtain b1 b2 b3 r cs where bs: "bs = b1 # b2 # b3 # r"
              and cs: "utf8_decode r = Inr cs" and s: "length s = Suc (length cs)"
              by (auto simp: Let_def cons_char_Inr split: if_splits list.splits)
            from "2.IH"(4) [OF refl a b c d True bs refl refl refl _ cs] a b c d True "2.prems" bs
            have "length cs \<le> length r"
              by (auto simp: Let_def split: if_splits)
            with bs s show ?thesis by simp
          next
            case False
            with a b c d "2.prems" show ?thesis by simp
          qed
        qed
      qed
    qed
  qed
qed


lemma utf8_encode_length_eq:
  assumes "utf8_encode s = Inr bs"
  shows "length bs = length s \<longleftrightarrow> list_all (\<lambda>c. c < 128) s"
proof
  assume "length bs = length s"
  with utf8_decode_length [OF utf8_roundtrip [OF assms]] show "list_all (\<lambda>c. c < 128) s"
    by simp
next
  assume "list_all (\<lambda>c. c < 128) s"
  from utf8_encode_ascii [OF this] assms show "length bs = length s" by simp
qed

section \<open>The header\<close>

lemma encode_header_roundtrip:
  assumes "0 \<le> ts" "ts < 2 ^ 32" "0 \<le> ks" "ks < 2 ^ 32" "0 \<le> vs" "vs < 2 ^ 32"
  shows "\<exists>h. encode_header bo ts ks vs = Inr h \<and> length h = 12
             \<and> decode_header bo h = Inr (ts, ks, vs)"
proof -
  obtain a where a: "pack_I bo ts = Inr a" "length a = 4" "unpack_I bo a = ts"
    using pack_I_Inr [OF assms(1,2)] by blast
  obtain b where b: "pack_I bo ks = Inr b" "length b = 4" "unpack_I bo b = ks"
    using pack_I_Inr [OF assms(3,4)] by blast
  obtain c where c: "pack_I bo vs = Inr c" "length c = 4" "unpack_I bo c = vs"
    using pack_I_Inr [OF assms(5,6)] by blast
  from a b c show ?thesis
    by (simp add: encode_header_def decode_header_def struct_pack_III_def struct_unpack_III_def)
qed

lemma encode_header_Inr:
  assumes "encode_header bo a b c = Inr h"
  shows "length h = 12 \<and> decode_header bo h = Inr (a, b, c)"
proof -
  from assms obtain x y z where "pack_I bo a = Inr x" "pack_I bo b = Inr y" "pack_I bo c = Inr z"
    by (auto simp: encode_header_def struct_pack_III_def split: sum.splits)
  then have "0 \<le> a \<and> a < 2 ^ 32" "0 \<le> b \<and> b < 2 ^ 32" "0 \<le> c \<and> c < 2 ^ 32"
    by (auto dest: pack_I_range)
  with encode_header_roundtrip [of a b c bo] assms show ?thesis by auto
qed

lemma decode_header_short: "length data \<noteq> 12 \<Longrightarrow> decode_header bo data = Inl StructError"
  by (simp add: decode_header_def struct_unpack_III_def)

lemma decode_header_12:
  assumes "length h = 12"
  shows "\<exists>ts ks vs. decode_header bo h = Inr (ts, ks, vs)"
  using assms by (simp add: decode_header_def struct_unpack_III_def)

lemma decode_header_error: "decode_header bo data = Inl e \<Longrightarrow> e = StructError"
  by (auto simp: decode_header_def struct_unpack_III_def split: if_splits)

text \<open>
  Claim C7. For every triple of unsigned 32-bit integers, \<open>encode_header\<close> returns exactly
  12 bytes and \<open>decode_header\<close> gives the triple back from them, whatever the byte order
  of the host.
\<close>

theorem u32_header_round_trip:
  assumes "0 \<le> ts" "ts < 2 ^ 32" "0 \<le> ks" "ks < 2 ^ 32" "0 \<le> vs" "vs < 2 ^ 32"
  shows "\<exists>h. encode_header bo ts ks vs = Inr h \<and> length h = 12
             \<and> decode_header bo h = Inr (ts, ks, vs)"
  using assms by (rule encode_header_roundtrip)

theorem u32_header_round_trip_witness:
  "\<exists>h. encode_header BigEndian 1700000000 3 4294967295 = Inr h \<and> length h = 12
       \<and> decode_header BigEndian h = Inr (1700000000, 3, 4294967295)"
  using u32_header_round_trip [of 1700000000 3 4294967295 BigEndian] by simp

text \<open>
  Claim C9. On an input of fewer than 12 bytes \<open>decode_header\<close> raises and returns no
  triple. The exception is the \<^verbatim>\<open>struct.error\<close> of \<^verbatim>\<open>struct.unpack\<close>; it is what
  the specification calls a malformed header.
\<close>

theorem decode_header_fewer_than_12:
  assumes "length data < 12"
  shows "decode_header bo data = Inl StructError"
  using assms by (simp add: decode_header_short)

theorem decode_header_fewer_than_12_witness:
  "length [1, 2, 3 :: byte] < 12 \<and> decode_header LittleEndian [1, 2, 3] = Inl StructError"
  using decode_header_fewer_than_12 [of "[1, 2, 3]" LittleEndian] by simp

section \<open>Records\<close>

lemma encode_kv_Inr:
  assumes "encode_kv bo ts key val = Inr (sz, data)"
  shows "\<exists>h kb vb. encode_header bo ts (int (length key)) (int (length val)) = Inr h
           \<and> utf8_encode key = Inr kb \<and> utf8_encode val = Inr vb
           \<and> data = h @ kb @ vb \<and> sz = 12 + int (length kb) + int (length vb)"
  using assms
  by (auto simp: encode_kv_def HEADER_SIZE_def Let_def split: sum.splits)

lemma encode_kv_size:
  assumes "encode_kv bo ts key val = Inr (sz, data)"
  shows "sz = int (length data)" and "12 + int (length val) \<le> sz"
proof -
  from encode_kv_Inr [OF assms] obtain h kb vb where
    h: "encode_header bo ts (int (length key)) (int (length val)) = Inr h"
    and vb: "utf8_encode val = Inr vb"
    and d: "data = h @ kb @ vb" "sz = 12 + int (length kb) + int (length vb)"
    by blast
  from encode_header_Inr [OF h] d show "sz = int (length data)" by simp
  from utf8_encode_length [OF vb] d show "12 + int (length val) \<le> sz" by simp
qed

text \<open>
  A header, key bytes of the number that the header declares and any value bytes decode to
  the timestamp of the header and the two strings.
\<close>

lemma decode_kv_record:
  assumes "decode_header bo h = Inr (ts, int (length kb), v)"
    and "utf8_decode kb = Inr key" and "utf8_decode vb = Inr val"
  shows "decode_kv bo (h @ kb @ vb) = Inr (ts, key, val)"
proof -
  from decode_header_Inr [OF assms(1)] have "length h = 12" by simp
  with assms show ?thesis by (simp add: decode_kv_def HEADER_SIZE_def)
qed

lemma decode_kv_error:
  "decode_kv bo data = Inl e \<Longrightarrow> e = StructError \<or> e = UnicodeDecodeError"
  by (auto simp: decode_kv_def Let_def split: sum.splits prod.splits
           dest: utf8_decode_error decode_header_error)

text \<open>
  When the key is ASCII, so that \<^verbatim>\<open>len(key)\<close> is its number of bytes, a record that
  \<open>encode_kv\<close> returns decodes to what was encoded, whatever the value is.
\<close>

lemma kv_roundtrip_ascii_key:
  assumes enc: "encode_kv bo ts key val = Inr (sz, data)"
    and ascii: "list_all (\<lambda>c. c < 128) key"
  shows "decode_kv bo data = Inr (ts, key, val)"
proof -
  from encode_kv_Inr [OF enc] obtain h kb vb where
    h: "encode_header bo ts (int (length key)) (int (length val)) = Inr h"
    and kb: "utf8_encode key = Inr kb" and vb: "utf8_encode val = Inr vb"
    and d: "data = h @ kb @ vb"
    by blast
  from utf8_encode_ascii [OF ascii] kb have lk: "length kb = length key" by simp
  from encode_header_Inr [OF h]
  have "decode_header bo h = Inr (ts, int (length kb), int (length val))"
    by (simp add: lk)
  from decode_kv_record [OF this utf8_roundtrip [OF kb] utf8_roundtrip [OF vb]] d
  show ?thesis by simp
qed

text \<open>
  The records of \<open>encode_kv\<close> that \<open>decode_kv\<close> maps back to what was encoded are exactly
  those with an ASCII key.
\<close>

lemma kv_roundtrip_iff:
  assumes enc: "encode_kv bo ts key val = Inr (sz, data)"
  shows "decode_kv bo data = Inr (ts, key, val) \<longleftrightarrow> list_all (\<lambda>c. c < 128) key"
proof
  assume "list_all (\<lambda>c. c < 128) key"
  with enc show "decode_kv bo data = Inr (ts, key, val)" by (rule kv_roundtrip_ascii_key)
next
  assume dec: "decode_kv bo data = Inr (ts, key, val)"
  from encode_kv_Inr [OF enc] obtain h kb vb where
    h: "encode_header bo ts (int (length key)) (int (length val)) = Inr h"
    and kb: "utf8_encode key = Inr kb" and d: "data = h @ kb @ vb"
    by blast
  from encode_header_Inr [OF h]
  have lh: "length h = 12"
    and dh: "decode_header bo h = Inr (ts, int (length key), int (length val))"
    by simp_all
  from utf8_encode_length [OF kb] have le: "length key \<le> length kb" .
  from dec d lh dh le have "utf8_decode (take (length key) kb) = Inr key"
    by (auto simp: decode_kv_def HEADER_SIZE_def split: sum.splits)
  from utf8_decode_length [OF this] le show "list_all (\<lambda>c. c < 128) key" by simp
qed

text \<open>
  Claim C4, on the code. \<open>encode_kv\<close> writes \<^verbatim>\<open>len(key)\<close> and \<^verbatim>\<open>len(value)\<close> of the
  strings, which count code points. For the key \<open>U+00E9\<close> and the value \<open>U+20AC\<close> the header
  declares 1 and 1, and the payloads that follow have 2 and 3 bytes. The number of code
  points is the number of bytes for ASCII strings only (lemma \<open>utf8_encode_length_eq\<close>).
\<close>

theorem encode_kv_sizes_count_code_points:
  "encode_kv LittleEndian 0 [0xE9] [0x20AC]
     = Inr (17, [0,0,0,0, 1,0,0,0, 1,0,0,0, 0xC3, 0xA9, 0xE2, 0x82, 0xAC])
   \<and> decode_header LittleEndian [0,0,0,0, 1,0,0,0, 1,0,0,0] = Inr (0, 1, 1)
   \<and> utf8_encode [0xE9] = Inr [0xC3, 0xA9]
   \<and> utf8_encode [0x20AC] = Inr [0xE2, 0x82, 0xAC]"
  by (simp add: codec_eval)

text \<open>
  Claim C1, on the code. The key \<open>U+00E9 a\<close> has two code points and three bytes. The
  header declares a key of 2, so \<open>decode_kv\<close> cuts the payload after two bytes and returns
  another key and another value than were encoded. With the key \<open>U+00E9\<close> alone the cut
  falls inside the character and \<open>decode_kv\<close> raises. The round trip holds for the
  ASCII keys and no others (lemma \<open>kv_roundtrip_iff\<close>).
\<close>

theorem kv_roundtrip_fails_beyond_ascii:
  "encode_kv LittleEndian 5 [0xE9, 0x61] [0x62]
     = Inr (16, [5,0,0,0, 2,0,0,0, 1,0,0,0, 0xC3, 0xA9, 0x61, 0x62])
   \<and> decode_kv LittleEndian [5,0,0,0, 2,0,0,0, 1,0,0,0, 0xC3, 0xA9, 0x61, 0x62]
     = Inr (5, [0xE9], [0x61, 0x62])
   \<and> encode_kv LittleEndian 5 [0xE9] [] = Inr (14, [5,0,0,0, 1,0,0,0, 0,0,0,0, 0xC3, 0xA9])
   \<and> decode_kv LittleEndian [5,0,0,0, 1,0,0,0, 0,0,0,0, 0xC3, 0xA9] = Inl UnicodeDecodeError"
  by (simp add: codec_eval)

text \<open>
  Claim C5, as the code has it. \<open>decode_kv\<close> never compares the number of bytes after the
  header with \<open>key_size + value_size\<close>; it does not use \<open>value_size\<close> at all. Given
  three more bytes than the two that the header declares it returns a key and a value.
\<close>

theorem decode_kv_ignores_declared_length:
  "decode_header LittleEndian (take 12 [0,0,0,0, 1,0,0,0, 1,0,0,0, 97, 98, 99]) = Inr (0, 1, 1)
   \<and> length (drop 12 [0,0,0,0, 1,0,0,0, 1,0,0,0, 97, 98, 99 :: byte]) = 3
   \<and> decode_kv LittleEndian [0,0,0,0, 1,0,0,0, 1,0,0,0, 97, 98, 99] = Inr (0, [97], [98, 99])"
  by (simp add: codec_eval)

text \<open>
  Claim C5, amended. \<open>decode_kv\<close> raises \<^verbatim>\<open>struct.error\<close> on fewer than 12 bytes. On 12
  bytes or more the header decodes, and \<open>decode_kv\<close> raises \<^verbatim>\<open>UnicodeDecodeError\<close> when
  the key bytes \<^verbatim>\<open>data[12:12 + key_size]\<close> or the value bytes \<^verbatim>\<open>data[12 + key_size:]\<close>
  are not valid UTF-8 and returns the timestamp and the two decoded strings otherwise,
  whatever the number of bytes after the header is.
\<close>

theorem decode_kv_outcome:
  "(length data < 12 \<longrightarrow> decode_kv bo data = Inl StructError)
   \<and> (12 \<le> length data \<longrightarrow>
        (\<exists>ts ks vs. decode_header bo (take 12 data) = Inr (ts, ks, vs)
           \<and> decode_kv bo data =
               (case utf8_decode (take (nat ks) (drop 12 data)) of
                  Inl e \<Rightarrow> Inl UnicodeDecodeError
                | Inr k \<Rightarrow>
                    (case utf8_decode (drop (12 + nat ks) data) of
                       Inl e \<Rightarrow> Inl UnicodeDecodeError
                     | Inr v \<Rightarrow> Inr (ts, k, v)))))"
proof (intro conjI impI)
  assume "length data < 12"
  then have "length (take 12 data) \<noteq> 12" by simp
  from decode_header_short [OF this] show "decode_kv bo data = Inl StructError"
    by (simp add: decode_kv_def HEADER_SIZE_def)
next
  assume "12 \<le> length data"
  then have "length (take 12 data) = 12" by simp
  from decode_header_12 [OF this] obtain ts ks vs where
    h: "decode_header bo (take 12 data) = Inr (ts, ks, vs)" by blast
  have "decode_kv bo data =
          (case utf8_decode (take (nat ks) (drop 12 data)) of
             Inl e \<Rightarrow> Inl UnicodeDecodeError
           | Inr k \<Rightarrow>
               (case utf8_decode (drop (12 + nat ks) data) of
                  Inl e \<Rightarrow> Inl UnicodeDecodeError
                | Inr v \<Rightarrow> Inr (ts, k, v)))"
    using h
    by (auto simp: decode_kv_def HEADER_SIZE_def split: sum.splits dest: utf8_decode_error)
  with h show "\<exists>ts ks vs. decode_header bo (take 12 data) = Inr (ts, ks, vs)
           \<and> decode_kv bo data =
               (case utf8_decode (take (nat ks) (drop 12 data)) of
                  Inl e \<Rightarrow> Inl UnicodeDecodeError
                | Inr k \<Rightarrow>
                    (case utf8_decode (drop (12 + nat ks) data) of
                       Inl e \<Rightarrow> Inl UnicodeDecodeError
                     | Inr v \<Rightarrow> Inr (ts, k, v)))"
    by blast
qed

theorem decode_kv_outcome_witness:
  "decode_kv BigEndian [1, 2, 3] = Inl StructError
   \<and> decode_kv BigEndian [0,0,0,9, 0,0,0,1, 0,0,0,1, 97, 98, 99] = Inr (9, [97], [98, 99])
   \<and> decode_kv BigEndian [0,0,0,9, 0,0,0,1, 0,0,0,1, 195, 169] = Inl UnicodeDecodeError"
  using decode_kv_outcome [of "[1, 2, 3]" BigEndian]
    decode_kv_outcome [of "[0,0,0,9, 0,0,0,1, 0,0,0,1, 97, 98, 99]" BigEndian]
    decode_kv_outcome [of "[0,0,0,9, 0,0,0,1, 0,0,0,1, 195, 169]" BigEndian]
  by (simp add: codec_eval)

section \<open>The startup scan\<close>

lemma scan_step_unfold:
  "scan_step bo \<lparr>file_h = \<lparr>content = F, pos = p\<rparr>, key_dir = kd\<rparr> br =
     (case decode_header bo (take 12 (drop p F)) of
        Inl e \<Rightarrow> Inl e
      | Inr (t, k, v) \<Rightarrow>
          (case decode_kv bo (take (nat (12 + k + v)) (drop p F)) of
             Inl e \<Rightarrow> Inl e
           | Inr (ts, key, val) \<Rightarrow>
               Inr (\<lparr>file_h = \<lparr>content = F, pos = p + length (take (nat (12 + k + v)) (drop p F))\<rparr>,
                     key_dir = kd(key \<mapsto>
                       (int (p + length (take (nat (12 + k + v)) (drop p F))) - v, v))\<rparr>,
                    br + 12 + k + v)))"
proof (cases "decode_header bo (take 12 (drop p F))")
  case (Inl e)
  then show ?thesis
    by (simp add: scan_step_def fread_def HEADER_SIZE_def)
next
  case (Inr tkv)
  obtain t k v where tkv: "tkv = (t, k, v)" by (cases tkv)
  from decode_header_Inr [OF Inr [unfolded tkv]]
  have len: "length (take 12 (drop p F)) = 12" by simp
  then have m: "min (length F - p) 12 = 12" by simp
  show ?thesis
    using Inr tkv len
    by (simp add: scan_step_def fread_def fseek_cur_def fseek_def ftell_def HEADER_SIZE_def m
             split: sum.splits prod.splits)
qed

lemma scan_loop_at_end:
  "scan_loop bo (int (length F)) \<lparr>file_h = \<lparr>content = F, pos = length F\<rparr>, key_dir = kd\<rparr>
     (int (length F)) = Inr \<lparr>file_h = \<lparr>content = F, pos = length F\<rparr>, key_dir = kd\<rparr>"
  by (simp add: scan_loop.simps)

lemma scan_loop_overshoot:
  assumes "br \<noteq> int (length F)"
  shows "scan_loop bo (int (length F)) \<lparr>file_h = \<lparr>content = F, pos = length F\<rparr>, key_dir = kd\<rparr> br
         = Inl StructError"
  using assms
  by (subst scan_loop.simps) (simp add: scan_step_unfold decode_header_short)

text \<open>
  A scan that succeeds on a file reads every record in full, so it takes the same steps on
  any longer file with the same beginning, up to the end of the shorter one.
\<close>

lemma scan_loop_append:
  assumes "scan_loop bo (int (length F)) \<lparr>file_h = \<lparr>content = F, pos = p\<rparr>, key_dir = kd\<rparr> (int p)
           = Inr s'"
    and "p \<le> length F"
  shows "\<exists>kd'. s' = \<lparr>file_h = \<lparr>content = F, pos = length F\<rparr>, key_dir = kd'\<rparr> \<and>
           scan_loop bo (int (length (F @ G)))
             \<lparr>file_h = \<lparr>content = F @ G, pos = p\<rparr>, key_dir = kd\<rparr> (int p)
           = scan_loop bo (int (length (F @ G)))
               \<lparr>file_h = \<lparr>content = F @ G, pos = length F\<rparr>, key_dir = kd'\<rparr> (int (length F))"
  using assms
proof (induction "length F - p" arbitrary: p kd rule: less_induct)
  case less
  show ?case
  proof (cases "p = length F")
    case True
    with less.prems show ?thesis by (auto simp: scan_loop.simps)
  next
    case False
    with less.prems have lt: "p < length F" by simp
    let ?h = "take 12 (drop p F)"
    from less.prems(1) lt obtain t k v where hd: "decode_header bo ?h = Inr (t, k, v)"
      by (subst (asm) scan_loop.simps) (auto simp: scan_step_unfold split: sum.splits)
    define n where "n = nat (12 + k + v)"
    let ?data = "take n (drop p F)"
    from less.prems(1) lt hd obtain ts key val where kv: "decode_kv bo ?data = Inr (ts, key, val)"
      by (subst (asm) scan_loop.simps) (auto simp: scan_step_unfold n_def split: sum.splits)
    let ?p' = "p + length ?data"
    let ?kd' = "kd(key \<mapsto> (int ?p' - v, v))"
    from less.prems(1) lt hd kv
    have rest: "scan_loop bo (int (length F)) \<lparr>file_h = \<lparr>content = F, pos = ?p'\<rparr>, key_dir = ?kd'\<rparr>
                  (int p + 12 + k + v) = Inr s'"
      by (subst (asm) scan_loop.simps) (simp add: scan_step_unfold n_def)
    from decode_header_Inr [OF hd] have len12: "length ?h = 12" and k: "0 \<le> k" and v: "0 \<le> v"
      by simp_all
    have n: "int n = 12 + k + v" "12 \<le> n" using k v by (simp_all add: n_def)
    have full: "p + n \<le> length F"
    proof (rule ccontr)
      assume "\<not> p + n \<le> length F"
      with lt have short: "length F - p < n" by linarith
      then have p': "?p' = length F" using lt by simp
      from short lt n have "int p + 12 + k + v \<noteq> int (length F)" by linarith
      from scan_loop_overshoot [OF this] rest p' show False by simp
    qed
    then have ld: "length ?data = n" by simp
    have br': "int p + 12 + k + v = int ?p'" using ld n by simp
    have p'le: "?p' \<le> length F" using full ld by simp
    have dec: "length F - ?p' < length F - p" using ld n lt p'le by linarith
    from less.hyps [OF dec rest [unfolded br'] p'le]
    obtain kd' where s': "s' = \<lparr>file_h = \<lparr>content = F, pos = length F\<rparr>, key_dir = kd'\<rparr>"
      and cont: "scan_loop bo (int (length (F @ G)))
                   \<lparr>file_h = \<lparr>content = F @ G, pos = ?p'\<rparr>, key_dir = ?kd'\<rparr> (int ?p')
                 = scan_loop bo (int (length (F @ G)))
                     \<lparr>file_h = \<lparr>content = F @ G, pos = length F\<rparr>, key_dir = kd'\<rparr> (int (length F))"
      by blast
    have h': "take 12 (drop p (F @ G)) = ?h" using len12 by simp
    have d': "take n (drop p (F @ G)) = ?data" using full by simp
    have "scan_loop bo (int (length (F @ G)))
            \<lparr>file_h = \<lparr>content = F @ G, pos = p\<rparr>, key_dir = kd\<rparr> (int p)
          = scan_loop bo (int (length (F @ G)))
              \<lparr>file_h = \<lparr>content = F @ G, pos = ?p'\<rparr>, key_dir = ?kd'\<rparr> (int p + 12 + k + v)"
      using lt hd kv
      by (subst scan_loop.simps)
         (simp add: scan_step_unfold h' d' n_def [symmetric] del: take_append drop_append)
    also note br'
    also note cont
    finally show ?thesis using s' by blast
  qed
qed

lemma init_empty:
  "init bo [] = Inr \<lparr>file_h = \<lparr>content = [], pos = 0\<rparr>, key_dir = Map.empty\<rparr>"
  by (simp add: init_def fseek_end_def)

lemma init_nonempty:
  assumes "F \<noteq> []"
  shows "init bo F =
           (case scan_loop bo (int (length F))
                   \<lparr>file_h = \<lparr>content = F, pos = 0\<rparr>, key_dir = Map.empty\<rparr> 0 of
              Inl e \<Rightarrow> Inl e
            | Inr s' \<Rightarrow> Inr (s'\<lparr>file_h := fseek_end (file_h s')\<rparr>))"
  using assms by (simp add: init_def fseek_def)

lemma init_Inr:
  assumes "init bo F = Inr s0"
  shows "file_h s0 = \<lparr>content = F, pos = length F\<rparr>"
    and "scan_loop bo (int (length F))
           \<lparr>file_h = \<lparr>content = F, pos = 0\<rparr>, key_dir = Map.empty\<rparr> 0 = Inr s0"
proof -
  have "file_h s0 = \<lparr>content = F, pos = length F\<rparr> \<and>
        scan_loop bo (int (length F))
           \<lparr>file_h = \<lparr>content = F, pos = 0\<rparr>, key_dir = Map.empty\<rparr> 0 = Inr s0"
  proof (cases "F = []")
    case True
    with assms show ?thesis
      by (auto simp: init_empty scan_loop.simps)
  next
    case False
    from assms obtain s' where
      sc: "scan_loop bo (int (length F))
             \<lparr>file_h = \<lparr>content = F, pos = 0\<rparr>, key_dir = Map.empty\<rparr> 0 = Inr s'"
      and s0: "s0 = s'\<lparr>file_h := fseek_end (file_h s')\<rparr>"
      by (auto simp: init_nonempty [OF False] split: sum.splits)
    from scan_loop_append [of bo F 0 Map.empty s' "[]"] sc
    obtain kd' where "s' = \<lparr>file_h = \<lparr>content = F, pos = length F\<rparr>, key_dir = kd'\<rparr>"
      by auto
    with s0 sc show ?thesis by (simp add: fseek_end_def)
  qed
  then show "file_h s0 = \<lparr>content = F, pos = length F\<rparr>"
    and "scan_loop bo (int (length F))
           \<lparr>file_h = \<lparr>content = F, pos = 0\<rparr>, key_dir = Map.empty\<rparr> 0 = Inr s0"
    by simp_all
qed

lemma init_append:
  assumes "init bo F = Inr s0" and "G \<noteq> []"
  shows "init bo (F @ G) =
           (case scan_loop bo (int (length (F @ G)))
                   \<lparr>file_h = \<lparr>content = F @ G, pos = length F\<rparr>, key_dir = key_dir s0\<rparr>
                   (int (length F)) of
              Inl e \<Rightarrow> Inl e
            | Inr s' \<Rightarrow> Inr (s'\<lparr>file_h := fseek_end (file_h s')\<rparr>))"
proof -
  from scan_loop_append [of bo F 0 Map.empty s0 G] init_Inr(2) [OF assms(1)]
  obtain kd' where s0: "s0 = \<lparr>file_h = \<lparr>content = F, pos = length F\<rparr>, key_dir = kd'\<rparr>"
    and eq: "scan_loop bo (int (length (F @ G)))
               \<lparr>file_h = \<lparr>content = F @ G, pos = 0\<rparr>, key_dir = Map.empty\<rparr> 0
             = scan_loop bo (int (length (F @ G)))
                 \<lparr>file_h = \<lparr>content = F @ G, pos = length F\<rparr>, key_dir = kd'\<rparr> (int (length F))"
    by auto
  from assms(2) have "F @ G \<noteq> []" by simp
  from init_nonempty [OF this] eq s0 show ?thesis by simp
qed

lemma scan_loop_last_record:
  assumes "decode_header bo (take 12 R) = Inr (t, k, v)"
    and "int (length R) = 12 + k + v"
    and "decode_kv bo R = Inr (ts, key, val)"
  shows "scan_loop bo (int (length (F @ R)))
           \<lparr>file_h = \<lparr>content = F @ R, pos = length F\<rparr>, key_dir = kd\<rparr> (int (length F))
         = Inr \<lparr>file_h = \<lparr>content = F @ R, pos = length (F @ R)\<rparr>,
                key_dir = kd(key \<mapsto> (int (length (F @ R)) - v, v))\<rparr>"
proof -
  from decode_header_Inr [OF assms(1)] have k: "0 \<le> k" and v: "0 \<le> v" by simp_all
  with assms(2) have n: "nat (12 + k + v) = length R" by linarith
  from assms(2) k v have "int (length F) \<noteq> int (length (F @ R))" by simp
  then have "scan_loop bo (int (length (F @ R)))
           \<lparr>file_h = \<lparr>content = F @ R, pos = length F\<rparr>, key_dir = kd\<rparr> (int (length F))
         = scan_loop bo (int (length (F @ R)))
             \<lparr>file_h = \<lparr>content = F @ R, pos = length (F @ R)\<rparr>,
                key_dir = kd(key \<mapsto> (int (length (F @ R)) - v, v))\<rparr> (int (length (F @ R)))"
    using assms
    by (subst scan_loop.simps) (simp add: scan_step_unfold n add.assoc)
  then show ?thesis by (simp only: scan_loop_at_end)
qed

lemma scan_loop_truncated_record:
  assumes hd: "decode_header bo (take 12 R) = Inr (t, k, v)"
    and len: "int (length R) = 12 + k + v"
    and m: "0 < m" "m < length R"
  shows "scan_loop bo (int (length (F @ take m R)))
           \<lparr>file_h = \<lparr>content = F @ take m R, pos = length F\<rparr>, key_dir = kd\<rparr> (int (length F))
         = Inl StructError \<or>
         scan_loop bo (int (length (F @ take m R)))
           \<lparr>file_h = \<lparr>content = F @ take m R, pos = length F\<rparr>, key_dir = kd\<rparr> (int (length F))
         = Inl UnicodeDecodeError"
proof -
  let ?G = "F @ take m R"
  let ?s = "\<lparr>file_h = \<lparr>content = ?G, pos = length F\<rparr>, key_dir = kd\<rparr>"
  from m have ne: "int (length F) \<noteq> int (length ?G)" by simp
  from m have lenG: "length ?G = length F + m" by simp
  show ?thesis
  proof (cases "m < 12")
    case True
    then have "length (take 12 (drop (length F) ?G)) \<noteq> 12" using m by simp
    from decode_header_short [OF this] ne
    have "scan_loop bo (int (length ?G)) ?s (int (length F)) = Inl StructError"
      by (subst scan_loop.simps) (simp add: scan_step_unfold)
    then show ?thesis by simp
  next
    case False
    then have h: "take 12 (drop (length F) ?G) = take 12 R" by (simp add: min_def)
    from decode_header_Inr [OF hd] have k: "0 \<le> k" and v: "0 \<le> v" by simp_all
    with len have n: "nat (12 + k + v) = length R" by linarith
    have d: "take (nat (12 + k + v)) (drop (length F) ?G) = take m R"
      using m by (simp add: n min_def)
    show ?thesis
    proof (cases "decode_kv bo (take m R)")
      case (Inl e)
      with ne hd have "scan_loop bo (int (length ?G)) ?s (int (length F)) = Inl e"
        by (subst scan_loop.simps) (simp add: scan_step_unfold h d del: take_append drop_append)
      with decode_kv_error [OF Inl] show ?thesis by auto
    next
      case (Inr r)
      obtain ts key val where r: "r = (ts, key, val)" by (cases r)
      from len m have over: "int (length F) + 12 + k + v \<noteq> int (length ?G)" by simp
      have "scan_loop bo (int (length ?G)) ?s (int (length F))
            = scan_loop bo (int (length ?G))
                \<lparr>file_h = \<lparr>content = ?G, pos = length ?G\<rparr>,
                   key_dir = kd(key \<mapsto> (int (length ?G) - v, v))\<rparr>
                (int (length F) + 12 + k + v)"
        using ne hd Inr r m
        by (subst scan_loop.simps)
           (simp add: scan_step_unfold h d min_def del: take_append drop_append)
      also have "\<dots> = Inl StructError"
        by (rule scan_loop_overshoot [OF over])
      finally show ?thesis by simp
    qed
  qed
qed

text \<open>
  Claim C6. Let the file hold a part that \<open>init\<close> accepts, followed by one more complete
  record (a header and as many payload bytes as the header declares) of which at least one
  byte at the end is missing and at least one byte is left. Then \<open>init\<close> raises and no
  object, hence no partly loaded \<open>key_dir\<close>, results. The exception is the
  \<^verbatim>\<open>struct.error\<close> or \<^verbatim>\<open>UnicodeDecodeError\<close> of the codec, which the specification
  groups under its corrupt store error.
\<close>

theorem truncated_last_record_rejected:
  assumes "init bo P = Inr s"
    and "decode_header bo (take HEADER_SIZE R) = Inr (t, k, v)"
    and "int (length R) = int HEADER_SIZE + k + v"
    and "0 < m" and "m < length R"
  shows "init bo (P @ take m R) = Inl StructError
         \<or> init bo (P @ take m R) = Inl UnicodeDecodeError"
proof -
  from assms(4,5) have ne: "take m R \<noteq> []" by auto
  from assms(2,3) have hd: "decode_header bo (take 12 R) = Inr (t, k, v)"
    and len: "int (length R) = 12 + k + v"
    by (simp_all add: HEADER_SIZE_def)
  from scan_loop_truncated_record [OF hd len assms(4,5), of P "key_dir s"]
  show ?thesis
    by (auto simp: init_append [OF assms(1) ne])
qed

theorem truncated_last_record_rejected_witness:
  "init BigEndian ([0,0,0,5,0,0,0,1,0,0,0,1,120,121] @ take 13 [0,0,0,7,0,0,0,1,0,0,0,1,120,122])
     = Inl StructError
   \<or> init BigEndian ([0,0,0,5,0,0,0,1,0,0,0,1,120,121] @ take 13 [0,0,0,7,0,0,0,1,0,0,0,1,120,122])
     = Inl UnicodeDecodeError"
proof -
  have h1: "init BigEndian [0,0,0,5,0,0,0,1,0,0,0,1,120,121] =
    Inr \<lparr>file_h = \<lparr>content = [0,0,0,5,0,0,0,1,0,0,0,1,120,121], pos = 14\<rparr>,
         key_dir = [[120] \<mapsto> (13, 1)]\<rparr>"
    by (simp add: codec_eval store_eval)
  have h2: "decode_header BigEndian (take HEADER_SIZE [0,0,0,7,0,0,0,1,0,0,0,1,120,122])
            = Inr (7, 1, 1)"
    by (simp add: codec_eval)
  have h3: "int (length [0,0,0,7,0,0,0,1,0,0,0,1,120,122 :: byte]) = int HEADER_SIZE + 1 + 1"
    by (simp add: HEADER_SIZE_def)
  show ?thesis
    by (rule truncated_last_record_rejected [OF h1 h2 h3]) simp_all
qed

section \<open>Reading and writing\<close>

text \<open>What a call of \<open>set_ds\<close> does once the record is encoded.\<close>

lemma set_ds_written:
  assumes "encode_kv bo now key val = Inr (sz, data)"
  shows "set_ds bo now True key val s =
           (Inr (), \<lparr>file_h = \<lparr>content = content (file_h s) @ data,
                              pos = length (content (file_h s) @ data)\<rparr>,
                     key_dir = (key_dir s)(key \<mapsto>
                       (int (pos (file_h s)) + sz - int (length val), int (length val)))\<rparr>)"
  using assms by (simp add: set_ds_def fwrite_def ftell_def)

lemma set_ds_write_fails:
  assumes "encode_kv bo now key val = Inr (sz, data)"
  shows "set_ds bo now False key val s =
           (Inl OSError, s\<lparr>key_dir := (key_dir s)(key \<mapsto>
                       (int (pos (file_h s)) + sz - int (length val), int (length val)))\<rparr>)"
  using assms by (simp add: set_ds_def fwrite_def ftell_def)

text \<open>What a call of \<open>get\<close> does on a key whose entry points at decodable bytes.\<close>

lemma get_found:
  assumes "key_dir s key = Some (int p, int n)"
    and "utf8_decode (take n (drop p (content (file_h s)))) = Inr val"
  shows "get key s =
           (Inr val, s\<lparr>file_h := \<lparr>content = content (file_h s),
                                  pos = length (content (file_h s))\<rparr>\<rparr>)"
  using assms by (simp add: get_def fseek_def fread_def fseek_end_def)

lemma get_missing: "key_dir s key = None \<Longrightarrow> get key s = (Inr [], s)"
  by (simp add: get_def)

text \<open>
  Every method leaves the position of the handle at the end of the file, so every object
  that the methods reach satisfies the hypothesis on the position made below.
\<close>

lemma init_at_end: "init bo F = Inr s \<Longrightarrow> pos (file_h s) = length (content (file_h s))"
  by (simp add: init_Inr(1))

lemma set_ds_at_end:
  assumes "pos (file_h s) = length (content (file_h s))"
  shows "pos (file_h (snd (set_ds bo now disk_ok key val s)))
         = length (content (file_h (snd (set_ds bo now disk_ok key val s))))"
  using assms
  by (auto simp: set_ds_def fwrite_def Let_def split: sum.splits prod.splits)

lemma get_at_end:
  assumes "pos (file_h s) = length (content (file_h s))"
  shows "pos (file_h (snd (get key s))) = length (content (file_h (snd (get key s))))"
  using assms
  by (auto simp: get_def fseek_def fread_def fseek_end_def Let_def
           split: option.splits sum.splits prod.splits)

text \<open>
  Claim C8. For a key that \<open>key_dir\<close> does not hold, \<open>get\<close> returns the empty string and
  leaves the object, its \<open>key_dir\<close> and its file, as it was. This is so for every key on
  the object that \<open>init\<close> builds on an empty file.
\<close>

theorem get_unknown_key:
  "(key_dir s key = None \<longrightarrow> get key s = (Inr [], s))
   \<and> (\<exists>s0. init bo [] = Inr s0 \<and> get key s0 = (Inr [], s0))"
  by (simp add: get_missing init_empty)

theorem get_unknown_key_witness:
  "key_dir \<lparr>file_h = \<lparr>content = [0,0,0,5,0,0,0,1,0,0,0,1,120,121], pos = 14\<rparr>,
            key_dir = [[120] \<mapsto> (13, 1)]\<rparr> [109] = None
   \<and> get [109] \<lparr>file_h = \<lparr>content = [0,0,0,5,0,0,0,1,0,0,0,1,120,121], pos = 14\<rparr>,
                key_dir = [[120] \<mapsto> (13, 1)]\<rparr>
     = (Inr [], \<lparr>file_h = \<lparr>content = [0,0,0,5,0,0,0,1,0,0,0,1,120,121], pos = 14\<rparr>,
                 key_dir = [[120] \<mapsto> (13, 1)]\<rparr>)"
  using get_unknown_key [of "\<lparr>file_h = \<lparr>content = [0,0,0,5,0,0,0,1,0,0,0,1,120,121], pos = 14\<rparr>,
            key_dir = [[120] \<mapsto> (13, 1)]\<rparr>" "[109]" BigEndian]
  by simp

text \<open>
  Claim C10. \<open>set_ds\<close> stores the new entry in \<open>key_dir\<close> before it writes. When the
  record is encoded and the write then raises, the call leaves the file as it was and
  \<open>key_dir\<close> with the new entry for the key, whose offset lies beyond the end of the file.
\<close>

theorem set_not_atomic:
  assumes "encode_kv bo now key val = Inr (sz, data)"
    and "pos (file_h s) = length (content (file_h s))"
  shows "\<exists>s'. set_ds bo now False key val s = (Inl OSError, s')
           \<and> file_h s' = file_h s
           \<and> key_dir s' = (key_dir s)(key \<mapsto>
                (int (length (content (file_h s))) + sz - int (length val), int (length val)))
           \<and> int (length (content (file_h s)))
               < int (length (content (file_h s))) + sz - int (length val)"
  using set_ds_write_fails [OF assms(1), of s] encode_kv_size(2) [OF assms(1)] assms(2)
  by simp

theorem set_not_atomic_witness:
  "\<exists>s'. set_ds LittleEndian 7 False [120] [121]
            \<lparr>file_h = \<lparr>content = [], pos = 0\<rparr>, key_dir = Map.empty\<rparr> = (Inl OSError, s')
         \<and> file_h s' = \<lparr>content = [], pos = 0\<rparr>
         \<and> key_dir s' = [[120] \<mapsto> (13, 1)]"
proof -
  have e: "encode_kv LittleEndian 7 [120] [121] = Inr (14, [7,0,0,0,1,0,0,0,1,0,0,0,120,121])"
    by (simp add: codec_eval)
  show ?thesis
    using set_not_atomic [OF e, of "\<lparr>file_h = \<lparr>content = [], pos = 0\<rparr>, key_dir = Map.empty\<rparr>"]
    by simp
qed

text \<open>
  Writing a record and reading its key back: the entry that \<open>set_ds\<close> stores points at the
  last \<^verbatim>\<open>len(value)\<close> bytes of the record.
\<close>

lemma set_then_get:
  assumes pos: "pos (file_h s) = length (content (file_h s))"
    and enc: "encode_kv bo now key val = Inr (sz, data)"
    and vb: "utf8_encode val = Inr vb" "length vb = length val" "utf8_decode vb = Inr val"
  shows "\<exists>s1. set_ds bo now True key val s = (Inr (), s1)
           \<and> content (file_h s1) = content (file_h s) @ data
           \<and> pos (file_h s1) = length (content (file_h s1))
           \<and> get key s1 = (Inr val, s1)"
proof -
  let ?F = "content (file_h s)"
  from encode_kv_Inr [OF enc] vb(1) obtain h kb where
    h: "encode_header bo now (int (length key)) (int (length val)) = Inr h"
    and d: "data = h @ kb @ vb" and sz: "sz = 12 + int (length kb) + int (length vb)"
    by auto
  from encode_header_Inr [OF h] have lh: "length h = 12" by simp
  let ?p = "length ?F + 12 + length kb"
  let ?s1 = "\<lparr>file_h = \<lparr>content = ?F @ data, pos = length (?F @ data)\<rparr>,
              key_dir = (key_dir s)(key \<mapsto> (int ?p, int (length val)))\<rparr>"
  have off: "int (pos (file_h s)) + sz - int (length val) = int ?p"
    using pos sz vb(2) by simp
  have s1: "set_ds bo now True key val s = (Inr (), ?s1)"
    by (simp add: set_ds_written [OF enc] off)
  have rd: "take (length val) (drop ?p (content (file_h ?s1))) = vb"
    using d lh vb(2) by simp
  have kd: "key_dir ?s1 key = Some (int ?p, int (length val))" by simp
  have "get key ?s1 = (Inr val, ?s1)"
    using get_found [of ?s1 key ?p "length val" val, OF kd] rd vb(3) by simp
  with s1 show ?thesis by simp
qed

text \<open>
  Claim C3. On an object whose handle is at the end of its file, as every method leaves it,
  and with clock readings that fit 32 bits: after \<open>set("a", "1")\<close> and \<open>set("a", "2")\<close>,
  \<open>get("a")\<close> returns \<open>"2"\<close>; the file after the second call is the file after the first
  call followed by the bytes of the second record, so it is longer by exactly the encoded
  length and no earlier byte has changed.
\<close>

theorem last_write_wins:
  assumes "pos (file_h s) = length (content (file_h s))"
    and "0 \<le> t1" "t1 < 2 ^ 32" "0 \<le> t2" "t2 < 2 ^ 32"
  shows "\<exists>s1 s2 s3 sz data.
           set_ds bo t1 True (py_str ''a'') (py_str ''1'') s = (Inr (), s1)
         \<and> set_ds bo t2 True (py_str ''a'') (py_str ''2'') s1 = (Inr (), s2)
         \<and> get (py_str ''a'') s2 = (Inr (py_str ''2''), s3)
         \<and> encode_kv bo t2 (py_str ''a'') (py_str ''2'') = Inr (sz, data)
         \<and> sz = int (length data)
         \<and> content (file_h s2) = content (file_h s1) @ data
         \<and> length (content (file_h s2)) = length (content (file_h s1)) + length data"
proof -
  obtain h1 where h1: "encode_header bo t1 1 1 = Inr h1"
    using encode_header_roundtrip [of t1 1 1 bo] assms by auto
  obtain h2 where h2: "encode_header bo t2 1 1 = Inr h2"
    using encode_header_roundtrip [of t2 1 1 bo] assms by auto
  have e1: "encode_kv bo t1 [97] [49] = Inr (14, h1 @ [97, 49])"
    using h1 by (simp add: encode_kv_def utf8_encode_char_def HEADER_SIZE_def)
  have e2: "encode_kv bo t2 [97] [50] = Inr (14, h2 @ [97, 50])"
    using h2 by (simp add: encode_kv_def utf8_encode_char_def HEADER_SIZE_def)
  from set_then_get [OF assms(1) e1, of "[49]"]
  obtain s1 where s1: "set_ds bo t1 True [97] [49] s = (Inr (), s1)"
    and p1: "pos (file_h s1) = length (content (file_h s1))"
    by (auto simp: utf8_encode_char_def cons_char_def)
  from set_then_get [OF p1 e2, of "[50]"]
  obtain s2 where s2: "set_ds bo t2 True [97] [50] s1 = (Inr (), s2)"
    and c2: "content (file_h s2) = content (file_h s1) @ h2 @ [97, 50]"
    and g2: "get [97] s2 = (Inr [50], s2)"
    by (auto simp: utf8_encode_char_def cons_char_def)
  from encode_header_Inr [OF h2] have "length h2 = 12" by simp
  with s1 s2 c2 g2 e2 show ?thesis
    by (simp add: py_str_def)
qed

theorem last_write_wins_witness:
  "\<exists>s1 s2 s3 sz data.
     set_ds LittleEndian 5 True (py_str ''a'') (py_str ''1'')
       \<lparr>file_h = \<lparr>content = [], pos = 0\<rparr>, key_dir = Map.empty\<rparr> = (Inr (), s1)
   \<and> set_ds LittleEndian 6 True (py_str ''a'') (py_str ''2'') s1 = (Inr (), s2)
   \<and> get (py_str ''a'') s2 = (Inr (py_str ''2''), s3)
   \<and> encode_kv LittleEndian 6 (py_str ''a'') (py_str ''2'') = Inr (sz, data)
   \<and> sz = int (length data)
   \<and> content (file_h s2) = content (file_h s1) @ data
   \<and> length (content (file_h s2)) = length (content (file_h s1)) + length data"
  using last_write_wins [of "\<lparr>file_h = \<lparr>content = [], pos = 0\<rparr>, key_dir = Map.empty\<rparr>" 5 6
      LittleEndian]
  by simp

text \<open>
  Writing a record whose header sizes are the byte lengths of its key and value, closing,
  and opening the file again. The file stays one that \<open>init\<close> accepts, so the lemma
  applies again after every such write.
\<close>

lemma set_reopen_get:
  assumes ok: "init bo (content (file_h s)) = Inr s0"
    and enc: "encode_kv bo now key val = Inr (sz, data)"
    and kb: "utf8_encode key = Inr kb" "length kb = length key" "utf8_decode kb = Inr key"
    and vb: "utf8_encode val = Inr vb" "length vb = length val" "utf8_decode vb = Inr val"
  shows "\<exists>s1 s2. set_ds bo now True key val s = (Inr (), s1)
           \<and> close s1 = content (file_h s) @ data
           \<and> init bo (close s1) = Inr s2
           \<and> key_dir s2 = (key_dir s0)(key \<mapsto>
                (int (length (close s1)) - int (length val), int (length val)))
           \<and> get key s2 = (Inr val, s2)"
proof -
  let ?F = "content (file_h s)"
  from encode_kv_Inr [OF enc] kb(1) vb(1) obtain h where
    h: "encode_header bo now (int (length key)) (int (length val)) = Inr h"
    and d: "data = h @ kb @ vb"
    by auto
  from encode_header_Inr [OF h]
  have lh: "length h = 12"
    and dh: "decode_header bo h = Inr (now, int (length key), int (length val))"
    by simp_all
  have ne: "data \<noteq> []" using d lh by auto
  have hd: "decode_header bo (take 12 data) = Inr (now, int (length key), int (length val))"
    using d lh dh by simp
  have len: "int (length data) = 12 + int (length key) + int (length val)"
    using d lh kb(2) vb(2) by simp
  have dk: "decode_kv bo data = Inr (now, key, val)"
    unfolding d using dh kb(2,3) vb(3) by (intro decode_kv_record) simp_all
  let ?L = "length (?F @ data)"
  let ?kd = "(key_dir s0)(key \<mapsto> (int ?L - int (length val), int (length val)))"
  let ?s2 = "\<lparr>file_h = \<lparr>content = ?F @ data, pos = ?L\<rparr>, key_dir = ?kd\<rparr>"
  have i2: "init bo (?F @ data) = Inr ?s2"
    unfolding init_append [OF ok ne] scan_loop_last_record [OF hd len dk]
    by (simp add: fseek_end_def)
  let ?p = "length ?F + 12 + length kb"
  have off: "int ?L - int (length val) = int ?p" using d lh vb(2) by simp
  have kd: "key_dir ?s2 key = Some (int ?p, int (length val))" using off by simp
  have rd: "take (length val) (drop ?p (content (file_h ?s2))) = vb"
    using d lh vb(2) by simp
  have g: "get key ?s2 = (Inr val, ?s2)"
    using get_found [of ?s2 key ?p "length val" val, OF kd] rd vb(3) by simp
  from i2 g show ?thesis
    by (simp add: set_ds_written [OF enc] close_def)
qed

text \<open>
  Claim C2. Take an object whose file is one that \<open>init\<close> accepts, and a clock reading that
  fits 32 bits. After \<open>set("x", "y")\<close> and \<open>close\<close>, \<open>init\<close> on the bytes of the file
  succeeds, its \<open>key_dir\<close> maps \<open>"x"\<close> to the offset and size of the value in the last
  record, and \<open>get("x")\<close> returns \<open>"y"\<close>. The new object depends on the file alone.
  The file of an object that \<open>init\<close> has just built is one that \<open>init\<close> accepts, and
  it stays so under writes of ASCII keys and values (lemma \<open>set_reopen_get\<close>).
\<close>

theorem persistence_across_reopen:
  assumes "init bo (content (file_h s)) = Inr s0"
    and "0 \<le> now" "now < 2 ^ 32"
  shows "\<exists>s1 s2 s3.
           set_ds bo now True (py_str ''x'') (py_str ''y'') s = (Inr (), s1)
         \<and> init bo (close s1) = Inr s2
         \<and> key_dir s2 (py_str ''x'') = Some (int (length (close s1)) - 1, 1)
         \<and> get (py_str ''x'') s2 = (Inr (py_str ''y''), s3)"
proof -
  obtain h where h: "encode_header bo now 1 1 = Inr h"
    using encode_header_roundtrip [of now 1 1 bo] assms by auto
  have e: "encode_kv bo now [120] [121] = Inr (14, h @ [120, 121])"
    using h by (simp add: encode_kv_def utf8_encode_char_def HEADER_SIZE_def)
  from set_reopen_get [OF assms(1) e, of "[120]" "[121]"]
  show ?thesis
    by (auto simp: utf8_encode_char_def cons_char_def py_str_def)
qed

theorem persistence_across_reopen_witness:
  "\<exists>s1 s2 s3.
     set_ds BigEndian 1700000000 True (py_str ''x'') (py_str ''y'')
       \<lparr>file_h = \<lparr>content = [], pos = 0\<rparr>, key_dir = Map.empty\<rparr> = (Inr (), s1)
   \<and> init BigEndian (close s1) = Inr s2
   \<and> key_dir s2 (py_str ''x'') = Some (int (length (close s1)) - 1, 1)
   \<and> get (py_str ''x'') s2 = (Inr (py_str ''y''), s3)"
  using persistence_across_reopen [of BigEndian
      "\<lparr>file_h = \<lparr>content = [], pos = 0\<rparr>, key_dir = Map.empty\<rparr>" _ 1700000000]
  by (simp add: init_empty)

end
